theory Spec2Isabelle
  imports Main "HOL-Library.Word"
begin

section \<open>JavaScript strings\<close>

text \<open>
  A JavaScript string is a sequence of UTF-16 code units. The chunks that
  \<^verbatim>\<open>reader.read()\<close> delivers have already passed through
  \<^verbatim>\<open>TextDecoderStream\<close>, so they are such sequences.
  \<open>ustr\<close> writes an ASCII literal as code units.
\<close>

type_synonym jsstring = "16 word list"

definition ustr :: "string \<Rightarrow> jsstring" where
  "ustr s = map of_char s"

text \<open>\<^verbatim>\<open>s.startsWith(p)\<close> and \<^verbatim>\<open>s.substring(n)\<close>.\<close>

definition startsWith :: "jsstring \<Rightarrow> jsstring \<Rightarrow> bool" where
  "startsWith s p = (take (length p) s = p)"

definition substring :: "jsstring \<Rightarrow> nat \<Rightarrow> jsstring" where
  "substring s n = drop n s"

text \<open>
  \<^verbatim>\<open>s.trim()\<close> removes WhiteSpace and LineTerminator code units from both ends:
  TAB, LF, VT, FF, CR, SP, NBSP, U+1680, U+2000..U+200A, LS, PS, U+202F, U+205F,
  U+3000 and the byte order mark U+FEFF.
\<close>

definition isWhiteSpace :: "16 word \<Rightarrow> bool" where
  "isWhiteSpace c =
     (c = 0x9 \<or> c = 0xA \<or> c = 0xB \<or> c = 0xC \<or> c = 0xD \<or> c = 0x20 \<or> c = 0xA0
      \<or> c = 0x1680 \<or> (0x2000 \<le> c \<and> c \<le> 0x200A) \<or> c = 0x2028 \<or> c = 0x2029
      \<or> c = 0x202F \<or> c = 0x205F \<or> c = 0x3000 \<or> c = 0xFEFF)"

definition trim :: "jsstring \<Rightarrow> jsstring" where
  "trim s = rev (dropWhile isWhiteSpace (rev (dropWhile isWhiteSpace s)))"

text \<open>
  \<^verbatim>\<open>value.split("\n\n")\<close>: the text is cut at every occurrence of two line
  feeds, found from left to right without overlap; the pieces between the
  cuts are returned, the last one being whatever follows the last cut (the
  empty string when the text ends with a cut, and the whole text when there
  is no cut).
\<close>

fun split_nn :: "jsstring \<Rightarrow> jsstring list" where
  "split_nn [] = [[]]"
| "split_nn [a] = [[a]]"
| "split_nn (a # b # cs) =
     (if a = 0xA \<and> b = 0xA then [] # split_nn cs
      else (case split_nn (b # cs) of
              [] \<Rightarrow> [[a]]
            | p # ps \<Rightarrow> (a # p) # ps))"

section \<open>JSON.parse\<close>

text \<open>
  The values \<^verbatim>\<open>JSON.parse\<close> can return. A number keeps its lexeme; an object
  keeps its members in insertion order, one entry per key.
\<close>

datatype json =
    JNull
  | JBool bool
  | JNum jsstring
  | JStr jsstring
  | JArr "json list"
  | JObj "(jsstring \<times> json) list"

datatype token =
    TLBrace | TRBrace | TLBrack | TRBrack | TColon | TComma
  | TStr jsstring | TNum jsstring | TTrue | TFalse | TNull

definition isJSONWhiteSpace :: "16 word \<Rightarrow> bool" where
  "isJSONWhiteSpace c = (c = 0x9 \<or> c = 0xA \<or> c = 0xD \<or> c = 0x20)"

definition isDigit :: "16 word \<Rightarrow> bool" where
  "isDigit c = (0x30 \<le> c \<and> c \<le> 0x39)"

definition hexval :: "16 word \<Rightarrow> 16 word option" where
  "hexval c =
     (if 0x30 \<le> c \<and> c \<le> 0x39 then Some (c - 0x30)
      else if 0x41 \<le> c \<and> c \<le> 0x46 then Some (c - 0x41 + 10)
      else if 0x61 \<le> c \<and> c \<le> 0x66 then Some (c - 0x61 + 10)
      else None)"

definition hex4 :: "16 word \<Rightarrow> 16 word \<Rightarrow> 16 word \<Rightarrow> 16 word \<Rightarrow> 16 word option" where
  "hex4 a b c d =
     (case (hexval a, hexval b, hexval c, hexval d) of
        (Some x, Some y, Some z, Some w) \<Rightarrow> Some (((x * 16 + y) * 16 + z) * 16 + w)
      | _ \<Rightarrow> None)"

text \<open>The single-character escapes of a JSON string: the character after the backslash.\<close>

definition unescape :: "16 word \<Rightarrow> 16 word option" where
  "unescape e =
     (if e = 0x22 then Some 0x22
      else if e = 0x5C then Some 0x5C
      else if e = 0x2F then Some 0x2F
      else if e = 0x62 then Some 0x8
      else if e = 0x66 then Some 0xC
      else if e = 0x6E then Some 0xA
      else if e = 0x72 then Some 0xD
      else if e = 0x74 then Some 0x9
      else None)"

text \<open>
  \<open>lex_string s\<close> reads a string literal whose opening quote has been consumed:
  the decoded characters up to the closing quote, and the text after it.
  A control character below U+0020 may not appear unescaped; \<open>lex_escape\<close>
  reads what follows a backslash and \<open>lex_unicode\<close> the four hexadecimal
  digits of a \<^verbatim>\<open>\u\<close> escape.
\<close>

definition push :: "16 word \<Rightarrow> (jsstring \<times> jsstring) option \<Rightarrow> (jsstring \<times> jsstring) option" where
  "push u r = (case r of None \<Rightarrow> None | Some (v, rest) \<Rightarrow> Some (u # v, rest))"

fun lex_string :: "jsstring \<Rightarrow> (jsstring \<times> jsstring) option"
  and lex_escape :: "jsstring \<Rightarrow> (jsstring \<times> jsstring) option"
  and lex_unicode :: "jsstring \<Rightarrow> (jsstring \<times> jsstring) option" where
  "lex_string [] = None"
| "lex_string (c # cs) =
     (if c = 0x22 then Some ([], cs)
      else if c = 0x5C then lex_escape cs
      else if c < 0x20 then None
      else push c (lex_string cs))"
| "lex_escape [] = None"
| "lex_escape (e # r) =
     (if e = 0x75 then lex_unicode r
      else (case unescape e of
              None \<Rightarrow> None
            | Some u \<Rightarrow> push u (lex_string r)))"
| "lex_unicode (h1 # h2 # h3 # h4 # r) =
     (case hex4 h1 h2 h3 h4 of
        None \<Rightarrow> None
      | Some u \<Rightarrow> push u (lex_string r))"
| "lex_unicode _ = None"

text \<open>
  A number is \<^verbatim>\<open>-? (0 | [1-9][0-9]*) (. [0-9]+)? ([eE] [+-]? [0-9]+)?\<close>.
  Each part returns its lexeme and the text after it.
\<close>

definition lex_int :: "jsstring \<Rightarrow> (jsstring \<times> jsstring) option" where
  "lex_int s =
     (case s of
        [] \<Rightarrow> None
      | c # r \<Rightarrow>
          if c = 0x30 then Some ([c], r)
          else if isDigit c then Some (c # takeWhile isDigit r, dropWhile isDigit r)
          else None)"

definition lex_frac :: "jsstring \<Rightarrow> (jsstring \<times> jsstring) option" where
  "lex_frac s =
     (case s of
        [] \<Rightarrow> Some ([], s)
      | c # r \<Rightarrow>
          if c = 0x2E then
            (if takeWhile isDigit r = [] then None
             else Some (c # takeWhile isDigit r, dropWhile isDigit r))
          else Some ([], s))"

definition lex_sign :: "jsstring \<Rightarrow> jsstring \<times> jsstring" where
  "lex_sign s =
     (case s of
        [] \<Rightarrow> ([], s)
      | d # r \<Rightarrow> if d = 0x2B \<or> d = 0x2D then ([d], r) else ([], s))"

definition lex_exp :: "jsstring \<Rightarrow> (jsstring \<times> jsstring) option" where
  "lex_exp s =
     (case s of
        [] \<Rightarrow> Some ([], s)
      | c # r \<Rightarrow>
          if c = 0x65 \<or> c = 0x45 then
            (case lex_sign r of
               (sg, r') \<Rightarrow>
                 if takeWhile isDigit r' = [] then None
                 else Some (c # sg @ takeWhile isDigit r', dropWhile isDigit r'))
          else Some ([], s))"

definition lex_number :: "jsstring \<Rightarrow> (jsstring \<times> jsstring) option" where
  "lex_number s =
     (case (case s of [] \<Rightarrow> ([], s) | c # r \<Rightarrow> if c = 0x2D then ([c], r) else ([], s)) of
        (sg, s0) \<Rightarrow>
          (case lex_int s0 of
             None \<Rightarrow> None
           | Some (ip, s1) \<Rightarrow>
               (case lex_frac s1 of
                  None \<Rightarrow> None
                | Some (fp, s2) \<Rightarrow>
                    (case lex_exp s2 of
                       None \<Rightarrow> None
                     | Some (ep, s3) \<Rightarrow> Some (sg @ ip @ fp @ ep, s3)))))"

text \<open>The token that starts a text whose first character is not white space.\<close>

definition next_token :: "jsstring \<Rightarrow> (token \<times> jsstring) option" where
  "next_token s =
     (case s of
        [] \<Rightarrow> None
      | c # cs \<Rightarrow>
          if c = 0x7B then Some (TLBrace, cs)
          else if c = 0x7D then Some (TRBrace, cs)
          else if c = 0x5B then Some (TLBrack, cs)
          else if c = 0x5D then Some (TRBrack, cs)
          else if c = 0x3A then Some (TColon, cs)
          else if c = 0x2C then Some (TComma, cs)
          else if c = 0x22 then map_option (\<lambda>(v, rest). (TStr v, rest)) (lex_string cs)
          else if c = 0x2D \<or> isDigit c then
            map_option (\<lambda>(n, rest). (TNum n, rest)) (lex_number s)
          else if startsWith s (ustr ''true'') then Some (TTrue, drop 4 s)
          else if startsWith s (ustr ''false'') then Some (TFalse, drop 5 s)
          else if startsWith s (ustr ''null'') then Some (TNull, drop 4 s)
          else None)"

lemma push_Some: "push u r = Some (v, rest) \<Longrightarrow> \<exists>v'. r = Some (v', rest)"
  by (auto simp: push_def split: option.splits)

lemma lex_string_shorter_aux:
  "(\<forall>v rest. lex_string s = Some (v, rest) \<longrightarrow> length rest < length s)"
  "(\<forall>v rest. lex_escape s1 = Some (v, rest) \<longrightarrow> length rest < length s1)"
  "(\<forall>v rest. lex_unicode s2 = Some (v, rest) \<longrightarrow> length rest < length s2)"
proof (induction s and s1 and s2 rule: lex_string_lex_escape_lex_unicode.induct)
  case 1
  show ?case by simp
next
  case (2 c cs)
  then show ?case by (auto dest!: push_Some split: if_splits)
next
  case 3
  show ?case by simp
next
  case (4 e r)
  then show ?case by (auto dest!: push_Some split: if_splits option.splits)
next
  case (5 h1 h2 h3 h4 r)
  then show ?case by (auto dest!: push_Some split: option.splits)
qed simp_all

lemma lex_string_shorter: "lex_string s = Some (v, rest) \<Longrightarrow> length rest < length s"
  using lex_string_shorter_aux(1) by blast

lemma lex_int_shorter: "lex_int s = Some (a, r) \<Longrightarrow> length r < length s"
  unfolding lex_int_def
  by (auto split: list.splits if_splits simp: less_Suc_eq_le length_dropWhile_le)

lemma lex_frac_shorter: "lex_frac s = Some (a, r) \<Longrightarrow> length r \<le> length s"
  unfolding lex_frac_def
  by (auto split: list.splits if_splits intro: le_SucI length_dropWhile_le)

lemma lex_sign_shorter: "lex_sign s = (a, r) \<Longrightarrow> length r \<le> length s"
  unfolding lex_sign_def
  by (auto split: list.splits if_splits)

lemma lex_exp_shorter: "lex_exp s = Some (a, r) \<Longrightarrow> length r \<le> length s"
proof (cases s)
  case Nil
  assume "lex_exp s = Some (a, r)"
  with Nil show ?thesis by (simp add: lex_exp_def)
next
  case (Cons c t)
  assume h: "lex_exp s = Some (a, r)"
  show ?thesis
  proof (cases "c = 0x65 \<or> c = 0x45")
    case False
    with h Cons show ?thesis by (auto simp: lex_exp_def)
  next
    case True
    obtain sg r' where sg: "lex_sign t = (sg, r')" by (cases "lex_sign t")
    with h Cons True have "r = dropWhile isDigit r'"
      by (auto simp: lex_exp_def split: if_splits)
    then have "length r \<le> length r'" by (simp add: length_dropWhile_le)
    also have "\<dots> \<le> length t" using sg by (rule lex_sign_shorter)
    finally show ?thesis using Cons by simp
  qed
qed

lemma lex_number_shorter: "lex_number s = Some (n, rest) \<Longrightarrow> length rest < length s"
proof -
  assume h: "lex_number s = Some (n, rest)"
  define p where "p = (case s of [] \<Rightarrow> ([], s) | c # r \<Rightarrow> if c = 0x2D then ([c], r) else ([], s))"
  obtain sg s0 where p: "p = (sg, s0)" by (cases p)
  have l0: "length s0 \<le> length s"
    using p unfolding p_def by (auto split: list.splits if_splits)
  from h p obtain ip s1 fp s2 ep where
    a: "lex_int s0 = Some (ip, s1)" and b: "lex_frac s1 = Some (fp, s2)"
    and c: "lex_exp s2 = Some (ep, rest)"
    unfolding lex_number_def p_def [symmetric]
    by (auto split: option.splits)
  from lex_int_shorter [OF a] lex_frac_shorter [OF b] lex_exp_shorter [OF c] l0
  show ?thesis by linarith
qed

lemma next_token_shorter: "next_token s = Some (t, rest) \<Longrightarrow> length rest < length s"
  unfolding next_token_def
  by (auto split: list.splits if_splits dest: lex_string_shorter lex_number_shorter
        simp: startsWith_def ustr_def)


text \<open>
  The lexer: white space (TAB, LF, CR, SP) between tokens is skipped; any other
  text that starts no token makes the whole input invalid.
\<close>

function lex :: "jsstring \<Rightarrow> token list option" where
  "lex [] = Some []"
| "lex (c # cs) =
     (if isJSONWhiteSpace c then lex cs
      else (case next_token (c # cs) of
              None \<Rightarrow> None
            | Some (t, rest) \<Rightarrow> map_option (Cons t) (lex rest)))"
  by pat_completeness auto
termination
  by (relation "measure length") (auto dest: next_token_shorter)

text \<open>
  The parser runs over the tokens with an explicit stack of the arrays and
  objects that are still open. \<open>FArr vs\<close> is an open array with the elements
  \<open>vs\<close> read so far; \<open>FObj kvs k\<close> is an open object with the members \<open>kvs\<close>
  read so far and the key \<open>k\<close> whose value is being read.
  \<open>parse_value\<close> expects a value to start; \<open>parse_after v\<close> has just completed
  the value \<open>v\<close>. An object member with a key already present replaces the
  earlier value (\<open>put\<close>).
\<close>

datatype frame = FArr "json list" | FObj "(jsstring \<times> json) list" jsstring

fun put :: "jsstring \<Rightarrow> json \<Rightarrow> (jsstring \<times> json) list \<Rightarrow> (jsstring \<times> json) list" where
  "put k v [] = [(k, v)]"
| "put k v ((k', v') # kvs) = (if k' = k then (k, v) # kvs else (k', v') # put k v kvs)"

fun parse_value :: "frame list \<Rightarrow> token list \<Rightarrow> json option"
  and parse_after :: "json \<Rightarrow> frame list \<Rightarrow> token list \<Rightarrow> json option" where
  "parse_value st [] = None"
| "parse_value st (t # ts) =
     (case t of
        TNull \<Rightarrow> parse_after JNull st ts
      | TTrue \<Rightarrow> parse_after (JBool True) st ts
      | TFalse \<Rightarrow> parse_after (JBool False) st ts
      | TNum n \<Rightarrow> parse_after (JNum n) st ts
      | TStr s \<Rightarrow> parse_after (JStr s) st ts
      | TLBrack \<Rightarrow>
          (case ts of
             TRBrack # ts' \<Rightarrow> parse_after (JArr []) st ts'
           | _ \<Rightarrow> parse_value (FArr [] # st) ts)
      | TLBrace \<Rightarrow>
          (case ts of
             TRBrace # ts' \<Rightarrow> parse_after (JObj []) st ts'
           | TStr k # TColon # ts' \<Rightarrow> parse_value (FObj [] k # st) ts'
           | _ \<Rightarrow> None)
      | _ \<Rightarrow> None)"
| "parse_after v [] ts = (if ts = [] then Some v else None)"
| "parse_after v (FArr vs # st) ts =
     (case ts of
        TComma # ts' \<Rightarrow> parse_value (FArr (vs @ [v]) # st) ts'
      | TRBrack # ts' \<Rightarrow> parse_after (JArr (vs @ [v])) st ts'
      | _ \<Rightarrow> None)"
| "parse_after v (FObj kvs k # st) ts =
     (case ts of
        TComma # TStr k' # TColon # ts' \<Rightarrow> parse_value (FObj (put k v kvs) k' # st) ts'
      | TRBrace # ts' \<Rightarrow> parse_after (JObj (put k v kvs)) st ts'
      | _ \<Rightarrow> None)"

text \<open>\<^verbatim>\<open>JSON.parse(text)\<close>: \<open>None\<close> stands for the SyntaxError it throws.\<close>

definition JSON_parse :: "jsstring \<Rightarrow> json option" where
  "JSON_parse s = (case lex s of None \<Rightarrow> None | Some ts \<Rightarrow> parse_value [] ts)"


section \<open>The stream assembler of handleStartLearning\<close>

text \<open>
  \<^verbatim>\<open>accumulatedJson += parsed.content\<close> appends the string conversion of the
  property. \<open>to_str ns v\<close> is that conversion for a parsed value \<open>v\<close>; \<open>None\<close>
  stands for the TypeError thrown when an object cannot be converted (its own
  property \<^verbatim>\<open>toString\<close>, a parsed value, is not a function, and the inherited
  \<^verbatim>\<open>valueOf\<close> returns the object itself). An array is converted by
  \<^verbatim>\<open>join(",")\<close>, where a \<^verbatim>\<open>null\<close> element gives the empty string.
  The conversion of a number to a string is the parameter \<open>ns\<close>, from the
  number's lexeme to the text JavaScript prints for it.
\<close>

fun join_comma :: "jsstring option list \<Rightarrow> jsstring option" where
  "join_comma [] = Some []"
| "join_comma [x] = x"
| "join_comma (x # y # r) =
     (case x of
        None \<Rightarrow> None
      | Some a \<Rightarrow> (case join_comma (y # r) of None \<Rightarrow> None | Some b \<Rightarrow> Some (a @ 0x2C # b)))"

fun to_str :: "(jsstring \<Rightarrow> jsstring) \<Rightarrow> json \<Rightarrow> jsstring option" where
  "to_str ns JNull = Some (ustr ''null'')"
| "to_str ns (JBool b) = Some (if b then ustr ''true'' else ustr ''false'')"
| "to_str ns (JNum n) = Some (ns n)"
| "to_str ns (JStr s) = Some s"
| "to_str ns (JArr vs) =
     join_comma (map (\<lambda>v. if v = JNull then Some [] else to_str ns v) vs)"
| "to_str ns (JObj kvs) =
     (if map_of kvs (ustr ''toString'') \<noteq> None then None
      else Some (ustr ''[object Object]''))"

text \<open>
  The text that \<^verbatim>\<open>accumulatedJson += parsed.content\<close> appends, \<open>None\<close> when the
  statement throws: reading a property of \<^verbatim>\<open>null\<close> throws; a value that has
  no property \<^verbatim>\<open>content\<close> gives \<^verbatim>\<open>undefined\<close>, whose string conversion is
  the text \<^verbatim>\<open>undefined\<close>.
\<close>

definition content_text :: "(jsstring \<Rightarrow> jsstring) \<Rightarrow> json \<Rightarrow> jsstring option" where
  "content_text ns parsed =
     (case parsed of
        JNull \<Rightarrow> None
      | JObj kvs \<Rightarrow>
          (case map_of kvs (ustr ''content'') of
             None \<Rightarrow> Some (ustr ''undefined'')
           | Some v \<Rightarrow> to_str ns v)
      | _ \<Rightarrow> Some (ustr ''undefined''))"

text \<open>
  One iteration of the \<^verbatim>\<open>for (const line of lines)\<close> loop, on the
  accumulated text \<open>acc\<close>: \<open>Break\<close> is \<^verbatim>\<open>break readLoop\<close>, \<open>Continue\<close> goes on
  to the next line. Both carry \<^verbatim>\<open>accumulatedJson\<close>. Whatever the \<^verbatim>\<open>try\<close>
  block throws is caught and logged, and the loop goes on.
\<close>

datatype loop = Continue jsstring | Break jsstring

fun buffer_of :: "loop \<Rightarrow> jsstring" where
  "buffer_of (Continue a) = a"
| "buffer_of (Break a) = a"

definition line_step :: "(jsstring \<Rightarrow> jsstring) \<Rightarrow> jsstring \<Rightarrow> jsstring \<Rightarrow> loop" where
  "line_step ns acc line =
     (if startsWith line (ustr ''data:'') then
        (let dataContent = trim (substring line 5) in
         if dataContent = ustr ''[DONE]'' then Break acc
         else (case JSON_parse dataContent of
                 None \<Rightarrow> Continue acc
               | Some parsed \<Rightarrow>
                   (case content_text ns parsed of
                      None \<Rightarrow> Continue acc
                    | Some t \<Rightarrow> Continue (acc @ t))))
      else Continue acc)"

fun for_lines :: "(jsstring \<Rightarrow> jsstring) \<Rightarrow> jsstring \<Rightarrow> jsstring list \<Rightarrow> loop" where
  "for_lines ns acc [] = Continue acc"
| "for_lines ns acc (line # lines) =
     (case line_step ns acc line of
        Break a \<Rightarrow> Break a
      | Continue a \<Rightarrow> for_lines ns a lines)"

text \<open>
  The transport: what the successive calls of \<^verbatim>\<open>reader.read()\<close> give, a chunk
  of text or a rejection with its message; after the last element of the list
  \<^verbatim>\<open>read()\<close> gives \<^verbatim>\<open>done\<close>. \<open>readLoop\<close> is the \<^verbatim>\<open>while (true)\<close> loop: it
  returns the number of calls of \<^verbatim>\<open>read()\<close> it made, and either the message of
  the rejection (\<open>Inl\<close>) or \<^verbatim>\<open>accumulatedJson\<close> when the loop is left (\<open>Inr\<close>).
  The list is finite: it stands for a stream that closes or fails after
  finitely many chunks, and on such a stream the loop always ends.
\<close>

datatype read_result = Chunk jsstring | ReadError jsstring

fun readLoop ::
  "(jsstring \<Rightarrow> jsstring) \<Rightarrow> jsstring \<Rightarrow> read_result list \<Rightarrow> nat \<times> (jsstring + jsstring)" where
  "readLoop ns acc [] = (1, Inr acc)"
| "readLoop ns acc (ReadError m # rs) = (1, Inl m)"
| "readLoop ns acc (Chunk v # rs) =
     (case for_lines ns acc (split_nn v) of
        Break a \<Rightarrow> (1, Inr a)
      | Continue a \<Rightarrow> (case readLoop ns a rs of (k, r) \<Rightarrow> (Suc k, r)))"

text \<open>
  The three ways \<^verbatim>\<open>handleStartLearning\<close> ends: \<open>Success v\<close> is
  \<^verbatim>\<open>setLearningPlan(v)\<close> with no error set; \<open>ParseFailure\<close> is the \<^verbatim>\<open>setError\<close>
  of the inner \<^verbatim>\<open>catch\<close>, with its fixed message; \<open>TransportFailure\<close> is the
  \<^verbatim>\<open>setError\<close> of the outer \<^verbatim>\<open>catch\<close>, with the message of what was thrown:
  the status of the response, or the message of a rejected \<^verbatim>\<open>fetch\<close> or
  \<^verbatim>\<open>read\<close>.
\<close>

datatype failure = BadStatus nat | Thrown jsstring

datatype outcome = Success json | ParseFailure | TransportFailure failure

record response =
  ok :: bool
  status :: nat
  body :: "read_result list option"

datatype fetch_result = Rejected jsstring | Response response

text \<open>The final \<^verbatim>\<open>try\<close> block: an empty text is falsy and throws like a syntax error does.\<close>

definition final_parse :: "jsstring \<Rightarrow> outcome" where
  "final_parse accumulatedJson =
     (if accumulatedJson \<noteq> [] then
        (case JSON_parse accumulatedJson of
           None \<Rightarrow> ParseFailure
         | Some finalPlan \<Rightarrow> Success finalPlan)
      else ParseFailure)"

text \<open>The outcome of \<^verbatim>\<open>handleStartLearning\<close> and the number of reads it made.\<close>

definition handleStartLearning ::
  "(jsstring \<Rightarrow> jsstring) \<Rightarrow> fetch_result \<Rightarrow> outcome \<times> nat" where
  "handleStartLearning ns fetched =
     (case fetched of
        Rejected m \<Rightarrow> (TransportFailure (Thrown m), 0)
      | Response r \<Rightarrow>
          (case body r of
             None \<Rightarrow> (TransportFailure (BadStatus (status r)), 0)
           | Some rs \<Rightarrow>
               if \<not> ok r then (TransportFailure (BadStatus (status r)), 0)
               else (case readLoop ns [] rs of
                       (k, Inl m) \<Rightarrow> (TransportFailure (Thrown m), k)
                     | (k, Inr accumulatedJson) \<Rightarrow> (final_parse accumulatedJson, k))))"

text \<open>
  The interfaces \<^verbatim>\<open>Task\<close> and \<^verbatim>\<open>LearningPlan\<close> as predicates on parsed values.
\<close>

definition is_string :: "json \<Rightarrow> bool" where
  "is_string v = (case v of JStr _ \<Rightarrow> True | _ \<Rightarrow> False)"

definition is_Task :: "json \<Rightarrow> bool" where
  "is_Task v =
     (case v of
        JObj kvs \<Rightarrow>
          (case map_of kvs (ustr ''description'') of Some (JStr _) \<Rightarrow> True | _ \<Rightarrow> False)
          \<and> (case map_of kvs (ustr ''subtasks'') of
                Some (JArr xs) \<Rightarrow> list_all is_string xs
              | _ \<Rightarrow> False)
      | _ \<Rightarrow> False)"

definition is_LearningPlan :: "json \<Rightarrow> bool" where
  "is_LearningPlan v =
     (case v of
        JObj kvs \<Rightarrow>
          (case map_of kvs (ustr ''title'') of Some (JStr _) \<Rightarrow> True | _ \<Rightarrow> False)
          \<and> (case map_of kvs (ustr ''tasks'') of
                Some (JArr xs) \<Rightarrow> list_all is_Task xs
              | _ \<Rightarrow> False)
      | _ \<Rightarrow> False)"


text \<open>
  The wire text of the document \<^verbatim>\<open>{"title":"X","tasks":[]}\<close>: one frame that
  carries the whole document text as the string \<^verbatim>\<open>content\<close>, then the sentinel frame.
  In the frame each quote of the document text is escaped with a backslash
  (code unit \<open>0x5C\<close>).
\<close>

definition example_wire :: jsstring where
  \<open>example_wire =
     ustr ''data: {"content":"{'' @ [0x5C] @ ustr ''"title'' @ [0x5C] @ ustr ''":''
     @ [0x5C] @ ustr ''"X'' @ [0x5C] @ ustr ''",'' @ [0x5C] @ ustr ''"tasks'' @ [0x5C]
     @ ustr ''":[]}"}\<newline>\<newline>data: [DONE]\<newline>\<newline>''\<close>

text \<open>
  The interfaces \<^verbatim>\<open>Task\<close> and \<^verbatim>\<open>LearningPlan\<close> as records, and the parsed
  value that has the fields of such a record.
\<close>

record Task =
  description :: jsstring
  subtasks :: "jsstring list"

record LearningPlan =
  title :: jsstring
  tasks :: "Task list"

definition json_of_task :: "Task \<Rightarrow> json" where
  "json_of_task k =
     JObj [(ustr ''description'', JStr (description k)),
           (ustr ''subtasks'', JArr (map JStr (subtasks k)))]"

definition json_of_plan :: "LearningPlan \<Rightarrow> json" where
  "json_of_plan p =
     JObj [(ustr ''title'', JStr (title p)),
           (ustr ''tasks'', JArr (map json_of_task (tasks p)))]"

text \<open>
  Modelled from the spec: the JSON text of a document (spec section 3 and
  the example of section 8), which the server writes. \<open>quote s\<close> is the string
  literal for \<open>s\<close>: a quote and a backslash are escaped with a backslash, a
  control character below U+0020 is written \<^verbatim>\<open>\u00XY\<close>. \<open>sep_by\<close> puts a
  separator between the elements of a list.
\<close>

definition hexdigit :: "16 word \<Rightarrow> 16 word" where
  "hexdigit n = (if n < 10 then 0x30 + n else 0x57 + n)"

definition esc :: "16 word \<Rightarrow> jsstring" where
  "esc c =
     (if c = 0x22 \<or> c = 0x5C then [0x5C, c]
      else if c < 0x20 then [0x5C, 0x75, 0x30, 0x30, hexdigit (c div 16), hexdigit (c mod 16)]
      else [c])"

definition quote :: "jsstring \<Rightarrow> jsstring" where
  "quote s = 0x22 # concat (map esc s) @ [0x22]"

fun sep_by :: "'a list \<Rightarrow> 'a list list \<Rightarrow> 'a list" where
  "sep_by s [] = []"
| "sep_by s [x] = x"
| "sep_by s (x # y # r) = x @ s @ sep_by s (y # r)"

definition json_array :: "jsstring list \<Rightarrow> jsstring" where
  "json_array xs = ustr ''['' @ sep_by (ustr '','') xs @ ustr '']''"

definition json_object2 :: "jsstring \<Rightarrow> jsstring \<Rightarrow> jsstring \<Rightarrow> jsstring \<Rightarrow> jsstring" where
  "json_object2 k1 s1 k2 s2 =
     ustr ''{'' @ quote k1 @ ustr '':'' @ s1 @ ustr '','' @ quote k2 @ ustr '':'' @ s2 @ ustr ''}''"

definition stringify_task :: "Task \<Rightarrow> jsstring" where
  "stringify_task k =
     json_object2 (ustr ''description'') (quote (description k))
       (ustr ''subtasks'') (json_array (map quote (subtasks k)))"

definition stringify_plan :: "LearningPlan \<Rightarrow> jsstring" where
  "stringify_plan p =
     json_object2 (ustr ''title'') (quote (title p))
       (ustr ''tasks'') (json_array (map stringify_task (tasks p)))"

text \<open>
  Modelled from the spec: the wire framing of section 6, which the server
  writes and this code reads. Every event is one line (it holds no line feed)
  that begins with \<^verbatim>\<open>data:\<close>. \<open>data_frame f\<close> is the line that carries the
  fragment \<open>f\<close> as the string \<^verbatim>\<open>content\<close> of a JSON object, as in the example of
  section 8. \<open>content_frame l f\<close>: the line \<open>l\<close> carries the fragment \<open>f\<close>, its
  payload being a JSON object whose \<^verbatim>\<open>content\<close> is the string \<open>f\<close>.
  \<open>done_frame d\<close>: the line \<open>d\<close> carries the sentinel. \<open>wire ls\<close> is the text of
  the events \<open>ls\<close>, each followed by the blank line that ends it.
\<close>

definition data_frame :: "jsstring \<Rightarrow> jsstring" where
  "data_frame f = ustr ''data: {'' @ quote (ustr ''content'') @ ustr '':'' @ quote f @ ustr ''}''"

definition content_frame :: "jsstring \<Rightarrow> jsstring \<Rightarrow> bool" where
  "content_frame l f =
     (startsWith l (ustr ''data:'') \<and> 0xA \<notin> set l
      \<and> (case JSON_parse (trim (substring l 5)) of
            Some (JObj kvs) \<Rightarrow> map_of kvs (ustr ''content'') = Some (JStr f)
          | _ \<Rightarrow> False))"

definition done_frame :: "jsstring \<Rightarrow> bool" where
  "done_frame d =
     (startsWith d (ustr ''data:'') \<and> 0xA \<notin> set d \<and> trim (substring d 5) = ustr ''[DONE]'')"

definition wire :: "jsstring list \<Rightarrow> jsstring" where
  "wire ls = concat (map (\<lambda>l. l @ [0xA, 0xA]) ls)"

text \<open>
  Three relations used to state the lemmas on \<open>JSON_parse\<close>: the text \<open>a\<close>
  lexes to the tokens \<open>ta\<close> before any text that follows it; the tokens \<open>tk\<close>
  parse to the value \<open>v\<close> in any context; the text \<open>s\<close> reads as the value \<open>v\<close>.
\<close>

definition lexes :: "jsstring \<Rightarrow> token list \<Rightarrow> bool" where
  "lexes a ta = (\<forall>rest. lex (a @ rest) = map_option (\<lambda>r. ta @ r) (lex rest))"

definition parses :: "token list \<Rightarrow> json \<Rightarrow> bool" where
  "parses tk v =
     (tk \<noteq> [] \<and> hd tk \<noteq> TRBrack
      \<and> (\<forall>st ts. parse_value st (tk @ ts) = parse_after v st ts))"

definition reads :: "jsstring \<Rightarrow> json \<Rightarrow> bool" where
  "reads s v = (\<exists>tk. lexes s tk \<and> parses tk v)"

section \<open>Properties of the loops\<close>

lemma dropWhile_all: "\<forall>c \<in> set s. P c \<Longrightarrow> dropWhile P s = []"
  by (induction s) auto

lemma trim_blank: "\<forall>c \<in> set s. isWhiteSpace c \<Longrightarrow> trim s = []"
  by (simp add: trim_def dropWhile_all)

lemma JSON_parse_empty: "JSON_parse [] = None"
  by (simp add: JSON_parse_def)

lemma done_not_empty: "ustr ''[DONE]'' \<noteq> []"
  by (simp add: ustr_def)

lemma line_step_unprefixed:
  "\<not> startsWith line (ustr ''data:'') \<Longrightarrow> line_step ns acc line = Continue acc"
  by (simp add: line_step_def)

lemma line_step_done:
  "startsWith d (ustr ''data:'') \<Longrightarrow> trim (substring d 5) = ustr ''[DONE]'' \<Longrightarrow>
   line_step ns acc d = Break acc"
  by (simp add: line_step_def)


lemma for_lines_append:
  "for_lines ns acc (xs @ ys) =
     (case for_lines ns acc xs of Break a \<Rightarrow> Break a | Continue a \<Rightarrow> for_lines ns a ys)"
  by (induction xs arbitrary: acc) (auto split: loop.splits)


lemma for_lines_no_done:
  "\<forall>l \<in> set ls. \<not> (startsWith l (ustr ''data:'') \<and> trim (substring l 5) = ustr ''[DONE]'')
   \<Longrightarrow> \<exists>a. for_lines ns acc ls = Continue a"
proof (induction ls arbitrary: acc)
  case Nil
  show ?case by simp
next
  case (Cons l ls)
  then have "\<exists>a. line_step ns acc l = Continue a"
    by (auto simp: line_step_def Let_def split: option.splits)
  then obtain a where a: "line_step ns acc l = Continue a" ..
  from Cons.IH [of a] Cons.prems show ?case by (simp add: a)
qed

lemma readLoop_no_done:
  "\<forall>v \<in> set vs. \<forall>l \<in> set (split_nn v).
      \<not> (startsWith l (ustr ''data:'') \<and> trim (substring l 5) = ustr ''[DONE]'')
   \<Longrightarrow> readLoop ns acc (map Chunk vs)
       = (Suc (length vs), Inr (foldl (\<lambda>a v. buffer_of (for_lines ns a (split_nn v))) acc vs))"
proof (induction vs arbitrary: acc)
  case Nil
  show ?case by simp
next
  case (Cons v vs)
  from Cons.prems have "\<exists>a. for_lines ns acc (split_nn v) = Continue a"
    by (intro for_lines_no_done) simp
  then obtain a where a: "for_lines ns acc (split_nn v) = Continue a" ..
  from Cons.IH [of a] Cons.prems show ?case by (simp add: a)
qed

lemma final_parse_not_transport: "final_parse a \<noteq> TransportFailure f"
  by (simp add: final_parse_def split: option.splits)


lemma split_nn_nonempty: "split_nn s \<noteq> []"
  by (induction s rule: split_nn.induct) (auto split: list.splits)

lemma split_nn_append:
  "last (split_nn s) = [] \<Longrightarrow> split_nn (s @ t) = butlast (split_nn s) @ split_nn t"
proof (induction s rule: split_nn.induct)
  case 1
  show ?case by simp
next
  case (2 a)
  then show ?case by simp
next
  case (3 a b cs)
  show ?case
  proof (cases "a = 0xA \<and> b = 0xA")
    case True
    with "3.prems" have "last (split_nn cs) = []" by (simp add: split_nn_nonempty)
    with True "3.IH"(1) show ?thesis by (simp add: split_nn_nonempty)
  next
    case False
    obtain p ps where ps: "split_nn (b # cs) = p # ps"
      using split_nn_nonempty [of "b # cs"] by (cases "split_nn (b # cs)") auto
    with False "3.prems" have ne: "ps \<noteq> []" and "last (split_nn (b # cs)) = []"
      by (auto split: if_splits)
    with False "3.IH"(2) have "split_nn ((b # cs) @ t) = butlast (split_nn (b # cs)) @ split_nn t"
      by simp
    with False ps ne show ?thesis by auto
  qed
qed

lemma line_step_empty: "line_step ns acc [] = Continue acc"
  by (simp add: line_step_def startsWith_def ustr_def)

lemma for_lines_split_append:
  assumes "last (split_nn s) = []"
  shows "for_lines ns acc (split_nn (s @ t)) =
           (case for_lines ns acc (split_nn s) of
              Break a \<Rightarrow> Break a
            | Continue a \<Rightarrow> for_lines ns a (split_nn t))"
proof -
  have s: "split_nn s = butlast (split_nn s) @ [[]]"
    using assms split_nn_nonempty [of s] append_butlast_last_id [of "split_nn s"] by simp
  have "for_lines ns acc (split_nn s) = for_lines ns acc (butlast (split_nn s))"
    by (subst s) (simp add: for_lines_append line_step_empty split: loop.splits)
  then show ?thesis
    by (simp add: split_nn_append [OF assms] for_lines_append)
qed

lemma readLoop_single:
  "snd (readLoop ns acc [Chunk w]) = Inr (buffer_of (for_lines ns acc (split_nn w)))"
  by (simp split: loop.splits)

lemma readLoop_concat:
  "\<forall>v \<in> set vs. last (split_nn v) = [] \<Longrightarrow>
   snd (readLoop ns acc (map Chunk vs)) = snd (readLoop ns acc [Chunk (concat vs)])"
proof (induction vs arbitrary: acc)
  case Nil
  show ?case by (simp add: line_step_empty)
next
  case (Cons v vs)
  then have v: "last (split_nn v) = []" and vs: "\<forall>v \<in> set vs. last (split_nn v) = []"
    by simp_all
  show ?case
  proof (cases "for_lines ns acc (split_nn v)")
    case (Break a)
    then show ?thesis by (simp add: for_lines_split_append [OF v])
  next
    case (Continue a)
    have "snd (readLoop ns acc (map Chunk (v # vs))) = snd (readLoop ns a (map Chunk vs))"
      by (simp add: Continue split: prod.splits)
    also have "\<dots> = Inr (buffer_of (for_lines ns a (split_nn (concat vs))))"
      by (simp only: Cons.IH [OF vs] readLoop_single)
    also have "\<dots> = snd (readLoop ns acc [Chunk (concat (v # vs))])"
      by (simp only: readLoop_single concat.simps for_lines_split_append [OF v] Continue loop.case)
    finally show ?thesis .
  qed
qed

lemma handle_fst:
  "fst (handleStartLearning ns (Response \<lparr>ok = True, status = s, body = Some rs\<rparr>))
     = (case snd (readLoop ns [] rs) of
          Inl m \<Rightarrow> TransportFailure (Thrown m)
        | Inr a \<Rightarrow> final_parse a)"
  by (simp add: handleStartLearning_def split: prod.splits sum.splits)

lemma JSON_parse_done: "JSON_parse (ustr ''[DONE]'') = None"
  by code_simp

lemma line_step_content:
  assumes "content_frame l f"
  shows "line_step ns acc l = Continue (acc @ f)"
proof -
  from assms obtain kvs where
    p: "JSON_parse (trim (substring l 5)) = Some (JObj kvs)"
    and c: "map_of kvs (ustr ''content'') = Some (JStr f)"
    and s: "startsWith l (ustr ''data:'')"
    by (auto simp: content_frame_def split: option.splits json.splits)
  from p have "trim (substring l 5) \<noteq> ustr ''[DONE]''"
    using JSON_parse_done by auto
  with p c s show ?thesis
    by (simp add: line_step_def content_text_def)
qed

lemma for_lines_content:
  "list_all2 content_frame ls fs \<Longrightarrow> for_lines ns acc ls = Continue (acc @ concat fs)"
proof (induction ls fs arbitrary: acc rule: list_all2_induct)
  case Nil
  show ?case by simp
next
  case (Cons l f ls fs)
  then show ?case by (simp add: line_step_content)
qed

lemma for_lines_done:
  "list_all done_frame ds \<Longrightarrow> buffer_of (for_lines ns acc (ds @ [[]])) = acc"
  by (cases ds) (simp_all add: line_step_empty line_step_done done_frame_def)

lemma split_nn_line:
  "0xA \<notin> set l \<Longrightarrow> split_nn (l @ 0xA # 0xA # rest) = l # split_nn rest"
proof (induction l)
  case Nil
  show ?case by simp
next
  case (Cons a l)
  then have a: "a \<noteq> 0xA" and IH: "split_nn (l @ 0xA # 0xA # rest) = l # split_nn rest"
    by simp_all
  show ?case
  proof (cases l)
    case Nil
    with a show ?thesis by simp
  next
    case (Cons b l')
    with a IH show ?thesis by simp
  qed
qed

lemma split_nn_wire:
  "\<forall>l \<in> set ls. 0xA \<notin> set l \<Longrightarrow> split_nn (wire ls) = ls @ [[]]"
  by (induction ls) (simp_all add: wire_def split_nn_line)

lemma content_frame_line: "list_all2 content_frame ls fs \<Longrightarrow> \<forall>l \<in> set ls. 0xA \<notin> set l"
  by (induction ls fs rule: list_all2_induct) (simp_all add: content_frame_def)

lemma wire_concat: "concat (map wire gs) = wire (concat gs)"
  by (induction gs) (simp_all add: wire_def)

lemma small_word_cases:
  fixes c :: "16 word"
  assumes "c < 0x20"
  shows "c \<in> set (map of_nat [0..<32])"
proof -
  from assms have "unat c < 32" by (simp add: word_less_nat_alt)
  then have "unat c \<in> set [0..<32]" by simp
  then have "(of_nat (unat c) :: 16 word) \<in> of_nat ` set [0..<32]"
    by (rule imageI)
  then show ?thesis by (simp only: set_map of_nat_unat ucast_id)
qed

lemma hex4_control:
  fixes c :: "16 word"
  assumes "c < 0x20"
  shows "hex4 0x30 0x30 (hexdigit (c div 16)) (hexdigit (c mod 16)) = Some c"
proof -
  have "\<forall>c \<in> set (map of_nat [0..<32] :: 16 word list).
          hex4 0x30 0x30 (hexdigit (c div 16)) (hexdigit (c mod 16)) = Some c"
    by code_simp
  with small_word_cases [OF assms] show ?thesis by blast
qed

lemma lex_string_esc1: "lex_string (esc c @ X) = push c (lex_string X)"
proof -
  consider "c = 0x22" | "c = 0x5C" | "c \<noteq> 0x22" "c \<noteq> 0x5C" "c < 0x20"
    | "c \<noteq> 0x22" "c \<noteq> 0x5C" "\<not> c < 0x20"
    by blast
  then show ?thesis
  proof cases
    case 1
    then show ?thesis by (simp add: esc_def unescape_def)
  next
    case 2
    then show ?thesis by (simp add: esc_def unescape_def)
  next
    case 3
    then show ?thesis by (simp add: esc_def hex4_control)
  next
    case 4
    then show ?thesis by (simp add: esc_def)
  qed
qed

lemma lex_string_quoted: "lex_string (concat (map esc s) @ 0x22 # rest) = Some (s, rest)"
  by (induction s) (simp_all add: lex_string_esc1 push_def)

lemma esc_no_lf: "0xA \<notin> set (esc c)"
proof (cases "c < 0x20")
  case True
  have "\<forall>c \<in> set (map of_nat [0..<32] :: 16 word list). 0xA \<notin> set (esc c)"
    by code_simp
  with small_word_cases [OF True] show ?thesis by blast
next
  case False
  then have "c \<noteq> 0xA" by auto
  with False show ?thesis by (simp add: esc_def)
qed

lemma quote_no_lf: "0xA \<notin> set (quote s)"
  by (induction s) (simp_all add: quote_def esc_no_lf)

lemma lexes_append: "lexes a ta \<Longrightarrow> lexes b tb \<Longrightarrow> lexes (a @ b) (ta @ tb)"
  by (simp add: lexes_def option.map_comp comp_def)

lemma lexes_Nil: "lexes [] []"
  by (simp add: lexes_def option.map_ident cong: option.map_cong)

lemma lexes_punct:
  "lexes [0x7B] [TLBrace]" "lexes [0x7D] [TRBrace]" "lexes [0x5B] [TLBrack]"
  "lexes [0x5D] [TRBrack]" "lexes [0x3A] [TColon]" "lexes [0x2C] [TComma]"
  by (simp_all add: lexes_def next_token_def isJSONWhiteSpace_def)

lemma lexes_quote: "lexes (quote s) [TStr s]"
  by (simp add: lexes_def quote_def next_token_def isJSONWhiteSpace_def lex_string_quoted)

lemma lexes_sep_by:
  "lexes s ts \<Longrightarrow> list_all2 lexes xs tks \<Longrightarrow> lexes (sep_by s xs) (sep_by ts tks)"
proof (induction s xs arbitrary: tks rule: sep_by.induct)
  case (1 s)
  then show ?case by (simp add: lexes_Nil)
next
  case (2 s x)
  then show ?case by (auto simp: list_all2_Cons1)
next
  case (3 s x y r)
  from "3.prems"(2) obtain tx ty tr where
    tks: "tks = tx # ty # tr" and x: "lexes x tx" and r: "list_all2 lexes (y # r) (ty # tr)"
    by (auto simp: list_all2_Cons1)
  from "3.IH" [OF "3.prems"(1) r] x "3.prems"(1) show ?case
    by (simp add: tks lexes_append)
qed

lemma parses_str: "parses [TStr s] (JStr s)"
  by (simp add: parses_def)

lemma parse_after_elems:
  "list_all2 parses tks vs \<Longrightarrow>
   parse_after v (FArr acc # st) (concat (map (\<lambda>tk. TComma # tk) tks) @ TRBrack # ts)
     = parse_after (JArr (acc @ v # vs)) st ts"
proof (induction tks vs arbitrary: v acc rule: list_all2_induct)
  case Nil
  show ?case by simp
next
  case (Cons tk tks v' vs)
  from Cons.hyps(1) have
    "parse_value (FArr (acc @ [v]) # st) (tk @ concat (map (\<lambda>tk. TComma # tk) tks) @ TRBrack # ts)
       = parse_after v' (FArr (acc @ [v]) # st) (concat (map (\<lambda>tk. TComma # tk) tks) @ TRBrack # ts)"
    by (simp add: parses_def)
  with Cons.IH [of v' "acc @ [v]"] show ?case by simp
qed

lemma sep_by_Cons: "sep_by [c] (x # xs) = x @ concat (map (\<lambda>y. c # y) xs)"
  by (induction xs arbitrary: x) simp_all

lemma parse_value_open:
  assumes "tk \<noteq> []" and "hd tk \<noteq> TRBrack"
  shows "parse_value st (TLBrack # tk @ ts) = parse_value (FArr [] # st) (tk @ ts)"
proof -
  from assms obtain a tk' where tk: "tk = a # tk'" and a: "a \<noteq> TRBrack"
    by (cases tk) auto
  from a show ?thesis by (cases a) (simp_all add: tk)
qed

lemma parses_array:
  assumes "list_all2 parses tks vs"
  shows "parses (TLBrack # sep_by [TComma] tks @ [TRBrack]) (JArr vs)"
proof (cases tks)
  case Nil
  with assms show ?thesis by (simp add: parses_def)
next
  case (Cons tk tks')
  with assms obtain v vs' where vs: "vs = v # vs'" and p: "parses tk v"
    and r: "list_all2 parses tks' vs'"
    by (auto simp: list_all2_Cons1)
  have "parse_value st (TLBrack # sep_by [TComma] (tk # tks') @ [TRBrack] @ ts)
          = parse_after (JArr vs) st ts" for st ts
  proof -
    have "parse_value st (TLBrack # tk @ (concat (map (\<lambda>y. TComma # y) tks') @ TRBrack # ts))
            = parse_value (FArr [] # st) (tk @ (concat (map (\<lambda>y. TComma # y) tks') @ TRBrack # ts))"
      using p by (intro parse_value_open) (simp_all add: parses_def)
    also have "\<dots> = parse_after v (FArr [] # st) (concat (map (\<lambda>y. TComma # y) tks') @ TRBrack # ts)"
      using p by (simp add: parses_def)
    also have "\<dots> = parse_after (JArr vs) st ts"
      using parse_after_elems [OF r, of v "[]" st ts] by (simp add: vs)
    finally show ?thesis by (simp add: sep_by_Cons)
  qed
  then show ?thesis by (simp add: parses_def Cons)
qed

lemma parses_object2:
  assumes "parses tk1 v1" and "parses tk2 v2" and "k1 \<noteq> k2"
  shows "parses (TLBrace # TStr k1 # TColon # tk1 @ TComma # TStr k2 # TColon # tk2 @ [TRBrace])
           (JObj [(k1, v1), (k2, v2)])"
proof -
  have "parse_value st (TLBrace # TStr k1 # TColon # tk1 @ TComma # TStr k2 # TColon # tk2 @ TRBrace # ts)
          = parse_after (JObj [(k1, v1), (k2, v2)]) st ts" for st ts
  proof -
    have "parse_value st (TLBrace # TStr k1 # TColon # tk1 @ TComma # TStr k2 # TColon # tk2 @ TRBrace # ts)
            = parse_value (FObj [] k1 # st) (tk1 @ TComma # TStr k2 # TColon # tk2 @ TRBrace # ts)"
      by simp
    also have "\<dots> = parse_after v1 (FObj [] k1 # st) (TComma # TStr k2 # TColon # tk2 @ TRBrace # ts)"
      using assms(1) by (simp add: parses_def)
    also have "\<dots> = parse_value (FObj [(k1, v1)] k2 # st) (tk2 @ TRBrace # ts)"
      by simp
    also have "\<dots> = parse_after v2 (FObj [(k1, v1)] k2 # st) (TRBrace # ts)"
      using assms(2) by (simp add: parses_def)
    also have "\<dots> = parse_after (JObj [(k1, v1), (k2, v2)]) st ts"
      using assms(3) by simp
    finally show ?thesis .
  qed
  then show ?thesis by (simp add: parses_def)
qed

lemma parses_object1:
  assumes "parses tk1 v1"
  shows "parses (TLBrace # TStr k1 # TColon # tk1 @ [TRBrace]) (JObj [(k1, v1)])"
proof -
  have "parse_value st (TLBrace # TStr k1 # TColon # tk1 @ TRBrace # ts)
          = parse_after (JObj [(k1, v1)]) st ts" for st ts
  proof -
    have "parse_value st (TLBrace # TStr k1 # TColon # tk1 @ TRBrace # ts)
            = parse_value (FObj [] k1 # st) (tk1 @ TRBrace # ts)"
      by simp
    also have "\<dots> = parse_after v1 (FObj [] k1 # st) (TRBrace # ts)"
      using assms by (simp add: parses_def)
    finally show ?thesis by simp
  qed
  then show ?thesis by (simp add: parses_def)
qed

lemma JSON_parse_tokens:
  assumes "lexes s tk" and "parses tk v"
  shows "JSON_parse s = Some v"
proof -
  from assms(1) have "lex (s @ []) = map_option (\<lambda>r. tk @ r) (lex [])"
    unfolding lexes_def by (rule spec)
  then have "lex s = Some tk" by simp
  moreover from assms(2) have "\<forall>st ts. parse_value st (tk @ ts) = parse_after v st ts"
    by (simp add: parses_def)
  then have "parse_value [] (tk @ []) = parse_after v [] []" by blast
  then have "parse_value [] tk = Some v" by simp
  ultimately show ?thesis by (simp add: JSON_parse_def)
qed

lemma reads_parse: "reads s v \<Longrightarrow> JSON_parse s = Some v"
  by (auto simp: reads_def intro: JSON_parse_tokens)

lemma reads_quote: "reads (quote s) (JStr s)"
  unfolding reads_def using lexes_quote parses_str by blast

lemma lexes_lit:
  "lexes (ustr ''{'') [TLBrace]" "lexes (ustr ''}'') [TRBrace]" "lexes (ustr ''['') [TLBrack]"
  "lexes (ustr '']'') [TRBrack]" "lexes (ustr '':'') [TColon]" "lexes (ustr '','') [TComma]"
  by (simp_all add: ustr_def lexes_punct)

lemma reads_all:
  "list_all2 reads xs vs \<Longrightarrow> \<exists>tks. list_all2 lexes xs tks \<and> list_all2 parses tks vs"
proof (induction xs vs rule: list_all2_induct)
  case Nil
  show ?case by simp
next
  case (Cons x xs v vs)
  then obtain tk tks where "lexes x tk" "parses tk v" "list_all2 lexes xs tks" "list_all2 parses tks vs"
    by (auto simp: reads_def)
  then have "list_all2 lexes (x # xs) (tk # tks) \<and> list_all2 parses (tk # tks) (v # vs)"
    by simp
  then show ?case by blast
qed

lemma reads_array:
  assumes "list_all2 reads xs vs"
  shows "reads (json_array xs) (JArr vs)"
proof -
  from reads_all [OF assms] obtain tks where
    l: "list_all2 lexes xs tks" and p: "list_all2 parses tks vs" by blast
  have "lexes (ustr ''['' @ sep_by (ustr '','') xs @ ustr '']'')
          ([TLBrack] @ sep_by [TComma] tks @ [TRBrack])"
    by (intro lexes_append lexes_lit lexes_sep_by l)
  then have "lexes (json_array xs) (TLBrack # sep_by [TComma] tks @ [TRBrack])"
    by (simp add: json_array_def)
  with parses_array [OF p] show ?thesis
    unfolding reads_def by blast
qed

lemma reads_object2:
  assumes "reads s1 v1" and "reads s2 v2" and "k1 \<noteq> k2"
  shows "reads (json_object2 k1 s1 k2 s2) (JObj [(k1, v1), (k2, v2)])"
proof -
  from assms(1,2) obtain t1 t2 where
    l1: "lexes s1 t1" and p1: "parses t1 v1" and l2: "lexes s2 t2" and p2: "parses t2 v2"
    by (auto simp: reads_def)
  have "lexes (ustr ''{'' @ quote k1 @ ustr '':'' @ s1 @ ustr '','' @ quote k2 @ ustr '':'' @ s2 @ ustr ''}'')
          ([TLBrace] @ [TStr k1] @ [TColon] @ t1 @ [TComma] @ [TStr k2] @ [TColon] @ t2 @ [TRBrace])"
    by (intro lexes_append lexes_lit lexes_quote l1 l2)
  then have "lexes (json_object2 k1 s1 k2 s2)
          (TLBrace # TStr k1 # TColon # t1 @ TComma # TStr k2 # TColon # t2 @ [TRBrace])"
    by (simp add: json_object2_def)
  with parses_object2 [OF p1 p2 assms(3)] show ?thesis
    unfolding reads_def by blast
qed

lemma reads_task: "reads (stringify_task k) (json_of_task k)"
  unfolding stringify_task_def json_of_task_def
  by (intro reads_object2 reads_quote reads_array)
     (simp_all add: list_all2_map1 list_all2_map2 reads_quote list_all2_same ustr_def)

lemma reads_plan: "reads (stringify_plan p) (json_of_plan p)"
  unfolding stringify_plan_def json_of_plan_def
  by (intro reads_object2 reads_quote reads_array)
     (simp_all add: list_all2_map1 list_all2_map2 reads_task list_all2_same ustr_def)

lemma stringify_plan_parses: "JSON_parse (stringify_plan p) = Some (json_of_plan p)"
  by (rule reads_parse [OF reads_plan])

lemma is_Task_json: "is_Task (json_of_task k)"
  by (simp add: is_Task_def json_of_task_def ustr_def list_all_iff is_string_def)

lemma is_LearningPlan_json: "is_LearningPlan (json_of_plan p)"
  by (simp add: is_LearningPlan_def json_of_plan_def ustr_def list_all_iff is_Task_json)

lemma trim_braces: "trim (0x20 # 0x7B # m @ [0x7D]) = 0x7B # m @ [0x7D]"
  by (simp add: trim_def isWhiteSpace_def)

lemma data_frame_payload:
  "trim (substring (data_frame f) 5) = ustr ''{'' @ quote (ustr ''content'') @ ustr '':'' @ quote f @ ustr ''}''"
  using trim_braces [of "quote (ustr ''content'') @ ustr '':'' @ quote f"]
  by (simp add: data_frame_def substring_def ustr_def)

lemma reads_payload:
  "reads (ustr ''{'' @ quote k @ ustr '':'' @ quote f @ ustr ''}'') (JObj [(k, JStr f)])"
proof -
  have "lexes (ustr ''{'' @ quote k @ ustr '':'' @ quote f @ ustr ''}'')
          ([TLBrace] @ [TStr k] @ [TColon] @ [TStr f] @ [TRBrace])"
    by (intro lexes_append lexes_lit lexes_quote)
  then have "lexes (ustr ''{'' @ quote k @ ustr '':'' @ quote f @ ustr ''}'')
          (TLBrace # TStr k # TColon # [TStr f] @ [TRBrace])"
    by simp
  with parses_object1 [OF parses_str] show ?thesis
    unfolding reads_def by blast
qed

lemma content_frame_data: "content_frame (data_frame f) f"
proof -
  have "startsWith (data_frame f) (ustr ''data:'')"
    by (simp add: startsWith_def data_frame_def ustr_def)
  moreover have "0xA \<notin> set (data_frame f)"
    using quote_no_lf by (simp add: data_frame_def ustr_def)
  moreover have "JSON_parse (trim (substring (data_frame f) 5))
                   = Some (JObj [(ustr ''content'', JStr f)])"
    by (simp only: data_frame_payload reads_parse [OF reads_payload])
  ultimately show ?thesis by (simp add: content_frame_def)
qed

lemma done_frame_line: "done_frame (ustr ''data: [DONE]'')"
  by code_simp

lemma assemble_wire:
  assumes "JSON_parse t = Some doc"
    and "list_all2 content_frame ls fs" and "concat fs = t"
    and "list_all done_frame ds"
    and "concat gs = ls @ ds"
  shows "fst (handleStartLearning ns
                (Response \<lparr>ok = True, status = s, body = Some (map (\<lambda>g. Chunk (wire g)) gs)\<rparr>))
           = Success doc
         \<and> map (\<lambda>g. split_nn (wire g)) gs = map (\<lambda>g. g @ [[]]) gs"
proof -
  have nl: "\<forall>l \<in> set (ls @ ds). 0xA \<notin> set l"
    using content_frame_line [OF assms(2)] assms(4)
    by (auto simp: list_all_iff done_frame_def)
  then have pieces: "split_nn (wire g) = g @ [[]]" if "g \<in> set gs" for g
    using that assms(5) [symmetric] by (intro split_nn_wire) auto
  then have ends: "\<forall>v \<in> set (map wire gs). last (split_nn v) = []"
    by auto
  have "split_nn (concat (map wire gs)) = (ls @ ds) @ [[]]"
    using nl by (simp only: wire_concat assms(5) split_nn_wire)
  then have "for_lines ns [] (split_nn (concat (map wire gs))) = for_lines ns [] (ls @ (ds @ [[]]))"
    by simp
  also have "\<dots> = for_lines ns t (ds @ [[]])"
    by (simp add: for_lines_append for_lines_content [OF assms(2)] assms(3))
  finally have "buffer_of (for_lines ns [] (split_nn (concat (map wire gs)))) = t"
    by (simp only: for_lines_done [OF assms(4)])
  then have "snd (readLoop ns [] (map Chunk (map wire gs))) = Inr t"
    by (simp only: readLoop_concat [OF ends] readLoop_single)
  moreover have "t \<noteq> []"
    using assms(1) JSON_parse_empty by auto
  ultimately have "fst (handleStartLearning ns
                (Response \<lparr>ok = True, status = s, body = Some (map (\<lambda>g. Chunk (wire g)) gs)\<rparr>))
           = Success doc"
    by (simp add: handle_fst final_parse_def assms(1) comp_def)
  moreover have "map (\<lambda>g. split_nn (wire g)) gs = map (\<lambda>g. g @ [[]]) gs"
    using pieces by simp
  ultimately show ?thesis by (rule conjI)
qed

section \<open>The claims\<close>

text \<open>
  C1 (as amended). Take any document \<open>p\<close>, any division of its JSON text into
  fragments \<open>fs\<close>, each carried by its content frame, and any number \<open>n\<close> of
  sentinel frames after them. Cut the wire text of these frames into chunks
  right after frame delimiters: the chunks are the wire texts of consecutive
  groups \<open>gs\<close> of the frames. Then assembling the chunk sequence gives
  \<open>Success\<close> with the document, which has the shape of a \<^verbatim>\<open>LearningPlan\<close>, and
  the split of every chunk returns exactly the frames of the chunk, in order,
  followed by one empty piece. Each chunk is split on its own; nothing is
  carried from one chunk to the next.
\<close>

theorem chunking_at_frame_ends:
  assumes "concat fs = stringify_plan p"
    and "concat gs = map data_frame fs @ replicate n (ustr ''data: [DONE]'')"
  shows "fst (handleStartLearning ns
                (Response \<lparr>ok = True, status = s, body = Some (map (\<lambda>g. Chunk (wire g)) gs)\<rparr>))
           = Success (json_of_plan p)
         \<and> is_LearningPlan (json_of_plan p)
         \<and> map (\<lambda>g. split_nn (wire g)) gs = map (\<lambda>g. g @ [[]]) gs"
proof -
  have frames: "list_all2 content_frame (map data_frame fs) fs"
    by (simp add: list_all2_map1 list_all2_same content_frame_data)
  have dones: "list_all done_frame (replicate n (ustr ''data: [DONE]''))"
    by (simp add: list_all_iff done_frame_line)
  from assemble_wire [OF stringify_plan_parses frames assms(1) dones assms(2)]
    is_LearningPlan_json
  show ?thesis by simp
qed

theorem chunking_at_frame_ends_witness:
  \<open>concat [take 12 (stringify_plan
               \<lparr>title = ustr ''X'', tasks = [\<lparr>description = ustr ''d'', subtasks = [ustr ''s'']\<rparr>]\<rparr>),
           drop 12 (stringify_plan
               \<lparr>title = ustr ''X'', tasks = [\<lparr>description = ustr ''d'', subtasks = [ustr ''s'']\<rparr>]\<rparr>)]
     = stringify_plan
         \<lparr>title = ustr ''X'', tasks = [\<lparr>description = ustr ''d'', subtasks = [ustr ''s'']\<rparr>]\<rparr>
   \<and> stringify_plan
         \<lparr>title = ustr ''X'', tasks = [\<lparr>description = ustr ''d'', subtasks = [ustr ''s'']\<rparr>]\<rparr>
       = ustr ''{"title":"X","tasks":[{"description":"d","subtasks":["s"]}]}''
   \<and> concat [[data_frame (ustr ''{"title":"X"'')],
              [data_frame (ustr '',"tasks":[{"description":"d","subtasks":["s"]}]}''),
               ustr ''data: [DONE]'']]
       = map data_frame [ustr ''{"title":"X"'', ustr '',"tasks":[{"description":"d","subtasks":["s"]}]}'']
           @ replicate 1 (ustr ''data: [DONE]'')
   \<and> fst (handleStartLearning id
            (Response \<lparr>ok = True, status = 200,
               body = Some (map (\<lambda>g. Chunk (wire g))
                 [[data_frame (ustr ''{"title":"X"'')],
                  [data_frame (ustr '',"tasks":[{"description":"d","subtasks":["s"]}]}''),
                   ustr ''data: [DONE]'']])\<rparr>))
       = Success (JObj [(ustr ''title'', JStr (ustr ''X'')),
                        (ustr ''tasks'', JArr [JObj [(ustr ''description'', JStr (ustr ''d'')),
                           (ustr ''subtasks'', JArr [JStr (ustr ''s'')])]])])
   \<and> split_nn (wire [data_frame (ustr '',"tasks":[{"description":"d","subtasks":["s"]}]}''),
                      ustr ''data: [DONE]''])
       = [data_frame (ustr '',"tasks":[{"description":"d","subtasks":["s"]}]}''),
          ustr ''data: [DONE]'', []]\<close>
proof -
  have t: \<open>stringify_plan
         \<lparr>title = ustr ''X'', tasks = [\<lparr>description = ustr ''d'', subtasks = [ustr ''s'']\<rparr>]\<rparr>
       = ustr ''{"title":"X","tasks":[{"description":"d","subtasks":["s"]}]}''\<close>
    by code_simp
  have f: \<open>[take 12 (ustr ''{"title":"X","tasks":[{"description":"d","subtasks":["s"]}]}''),
            drop 12 (ustr ''{"title":"X","tasks":[{"description":"d","subtasks":["s"]}]}'')]
       = [ustr ''{"title":"X"'', ustr '',"tasks":[{"description":"d","subtasks":["s"]}]}'']\<close>
    by code_simp
  have h1: \<open>concat [ustr ''{"title":"X"'', ustr '',"tasks":[{"description":"d","subtasks":["s"]}]}'']
     = stringify_plan
         \<lparr>title = ustr ''X'', tasks = [\<lparr>description = ustr ''d'', subtasks = [ustr ''s'']\<rparr>]\<rparr>\<close>
    by code_simp
  have h2: \<open>concat [[data_frame (ustr ''{"title":"X"'')],
              [data_frame (ustr '',"tasks":[{"description":"d","subtasks":["s"]}]}''),
               ustr ''data: [DONE]'']]
       = map data_frame [ustr ''{"title":"X"'', ustr '',"tasks":[{"description":"d","subtasks":["s"]}]}'']
           @ replicate 1 (ustr ''data: [DONE]'')\<close>
    by code_simp
  have j: \<open>json_of_plan
         \<lparr>title = ustr ''X'', tasks = [\<lparr>description = ustr ''d'', subtasks = [ustr ''s'']\<rparr>]\<rparr>
       = JObj [(ustr ''title'', JStr (ustr ''X'')),
               (ustr ''tasks'', JArr [JObj [(ustr ''description'', JStr (ustr ''d'')),
                  (ustr ''subtasks'', JArr [JStr (ustr ''s'')])]])]\<close>
    by code_simp
  from chunking_at_frame_ends [OF h1 h2, of id 200] t f h1 h2 j
  show ?thesis by simp
qed

text \<open>
  C1 as stated fails. The wire text \<open>example_wire\<close> delivered as one chunk
  assembles to the document it encodes, which has the shape of a
  \<^verbatim>\<open>LearningPlan\<close>. Cut after 30 code units, in the middle of the first frame, it
  assembles to a parse failure: the first part is a \<^verbatim>\<open>data:\<close> line whose payload
  is not valid JSON, the rest of the frame does not start with \<^verbatim>\<open>data:\<close>, and
  both are skipped, so the accumulated text is empty at the sentinel.
\<close>

theorem chunk_boundary_invariance_counterexample:
  \<open>handleStartLearning id
      (Response \<lparr>ok = True, status = 200, body = Some [Chunk example_wire]\<rparr>)
     = (Success (JObj [(ustr ''title'', JStr (ustr ''X'')), (ustr ''tasks'', JArr [])]), 1)
   \<and> is_LearningPlan (JObj [(ustr ''title'', JStr (ustr ''X'')), (ustr ''tasks'', JArr [])])
   \<and> handleStartLearning id
        (Response \<lparr>ok = True, status = 200,
           body = Some [Chunk (take 30 example_wire), Chunk (drop 30 example_wire)]\<rparr>)
       = (ParseFailure, 2)\<close>
  by code_simp

text \<open>
  C2 (as amended). When the read loop is left with the accumulated text
  \<open>acc\<close>, the outcome is \<open>Success v\<close> exactly when \<open>acc\<close> is not empty and parses
  as JSON to \<open>v\<close>, whatever the shape of \<open>v\<close>, and it is \<open>ParseFailure\<close> exactly
  when \<open>acc\<close> is empty or is not valid JSON. The accumulated text itself is
  never delivered.
\<close>

theorem success_iff_buffer_parses:
  assumes "ok r" and "body r = Some rs" and "readLoop ns [] rs = (k, Inr acc)"
  shows "(handleStartLearning ns (Response r) = (Success v, k)) = (acc \<noteq> [] \<and> JSON_parse acc = Some v)
         \<and> (handleStartLearning ns (Response r) = (ParseFailure, k)) = (acc = [] \<or> JSON_parse acc = None)"
  using assms by (auto simp: handleStartLearning_def final_parse_def split: option.splits)

theorem success_iff_buffer_parses_witness:
  \<open>readLoop id [] [Chunk (ustr ''data: {"content":"{}"}\<newline>\<newline>'')] = (2, Inr (ustr ''{}''))
   \<and> ustr ''{}'' \<noteq> [] \<and> JSON_parse (ustr ''{}'') = Some (JObj [])
   \<and> handleStartLearning id
        (Response \<lparr>ok = True, status = 200,
           body = Some [Chunk (ustr ''data: {"content":"{}"}\<newline>\<newline>'')]\<rparr>)
       = (Success (JObj []), 2)\<close>
proof -
  have h1: \<open>readLoop id [] [Chunk (ustr ''data: {"content":"{}"}\<newline>\<newline>'')] = (2, Inr (ustr ''{}''))\<close>
    by code_simp
  have h2: \<open>ustr ''{}'' \<noteq> [] \<and> JSON_parse (ustr ''{}'') = Some (JObj [])\<close>
    by code_simp
  from success_iff_buffer_parses
    [of \<open>\<lparr>ok = True, status = 200,
           body = Some [Chunk (ustr ''data: {"content":"{}"}\<newline>\<newline>'')]\<rparr>\<close>
        \<open>[Chunk (ustr ''data: {"content":"{}"}\<newline>\<newline>'')]\<close> id 2 \<open>ustr ''{}''\<close> \<open>JObj []\<close>,
     OF _ _ h1] h1 h2
  show ?thesis by simp
qed

text \<open>
  C2 as stated fails. The accumulated text \<^verbatim>\<open>{}\<close> is valid JSON that has
  neither a title nor tasks, and the outcome is \<open>Success\<close> with that value:
  the parsed value is passed on without any check of its shape.
\<close>

theorem schema_not_checked_counterexample:
  \<open>handleStartLearning id
      (Response \<lparr>ok = True, status = 200,
         body = Some [Chunk (ustr ''data: {"content":"{}"}\<newline>\<newline>'')]\<rparr>)
     = (Success (JObj []), 2)
   \<and> \<not> is_LearningPlan (JObj [])\<close>
  by code_simp

text \<open>
  C3. The claim says that a frame whose payload parses to an object without a
  \<^verbatim>\<open>content\<close> field leaves the accumulated text unchanged. On the frame
  \<^verbatim>\<open>data: {"role":"assistant"}\<close> the code appends the text \<^verbatim>\<open>undefined\<close>,
  the string conversion of the absent property; a stream that carries the
  document text \<^verbatim>\<open>{}\<close> and then this frame ends in a parse failure.
\<close>

theorem absent_content_appends_undefined:
  \<open>line_step id (ustr ''{}'') (ustr ''data: {"role":"assistant"}'') = Continue (ustr ''{}undefined'')
   \<and> handleStartLearning id
        (Response \<lparr>ok = True, status = 200,
           body = Some [Chunk (ustr ''data: {"content":"{}"}\<newline>\<newline>data: {"role":"assistant"}\<newline>\<newline>'')]\<rparr>)
       = (ParseFailure, 2)
   \<and> handleStartLearning id
        (Response \<lparr>ok = True, status = 200,
           body = Some [Chunk (ustr ''data: {"content":"{}"}\<newline>\<newline>'')]\<rparr>)
       = (Success (JObj []), 2)\<close>
  by code_simp

text \<open>
  C4. When the frames of a chunk contain a sentinel frame \<open>d\<close>, the read loop
  is left at once: the accumulated text is the one reached on the frames
  \<open>pre\<close> before the sentinel, whatever the frames \<open>post\<close> after it in the same
  chunk and whatever the later reads \<open>rs\<close> would give, and no further read is
  made.
\<close>

theorem sentinel_stops_batch:
  assumes "startsWith d (ustr ''data:'')" and "trim (substring d 5) = ustr ''[DONE]''"
    and "split_nn v = pre @ d # post"
  shows "readLoop ns acc (Chunk v # rs) = (1, Inr (buffer_of (for_lines ns acc pre)))"
proof -
  have "for_lines ns acc (pre @ d # post) = Break (buffer_of (for_lines ns acc pre))"
    by (cases "for_lines ns acc pre") (simp_all add: for_lines_append line_step_done [OF assms(1,2)])
  then show ?thesis by (simp add: assms(3))
qed

theorem sentinel_stops_batch_witness:
  \<open>startsWith (ustr ''data: [DONE]'') (ustr ''data:'')
   \<and> trim (substring (ustr ''data: [DONE]'') 5) = ustr ''[DONE]''
   \<and> split_nn (ustr ''data: {"content":"[1"}\<newline>\<newline>data: [DONE]\<newline>\<newline>data: {"content":"]"}\<newline>\<newline>'')
       = [ustr ''data: {"content":"[1"}''] @ ustr ''data: [DONE]'' # [ustr ''data: {"content":"]"}'', []]
   \<and> readLoop id []
        (Chunk (ustr ''data: {"content":"[1"}\<newline>\<newline>data: [DONE]\<newline>\<newline>data: {"content":"]"}\<newline>\<newline>'')
         # [Chunk (ustr ''data: {"content":"]"}\<newline>\<newline>'')])
       = (1, Inr (ustr ''[1''))\<close>
proof -
  have h1: "startsWith (ustr ''data: [DONE]'') (ustr ''data:'')" by code_simp
  have h2: "trim (substring (ustr ''data: [DONE]'') 5) = ustr ''[DONE]''" by code_simp
  have h3: \<open>split_nn (ustr ''data: {"content":"[1"}\<newline>\<newline>data: [DONE]\<newline>\<newline>data: {"content":"]"}\<newline>\<newline>'')
       = [ustr ''data: {"content":"[1"}''] @ ustr ''data: [DONE]'' # [ustr ''data: {"content":"]"}'', []]\<close>
    by code_simp
  have h4: \<open>buffer_of (for_lines id [] [ustr ''data: {"content":"[1"}'']) = ustr ''[1''\<close>
    by code_simp
  from sentinel_stops_batch [OF h1 h2 h3, of id "[]" \<open>[Chunk (ustr ''data: {"content":"]"}\<newline>\<newline>'')]\<close>]
    h1 h2 h3 h4
  show ?thesis by simp
qed

text \<open>
  C5. When the transport closes after chunks none of whose frames is the
  sentinel, the close ends the read loop like the sentinel does: the outcome
  is the final parse of the text accumulated over all the chunks, never a
  transport failure. The last read is the one that reports the close.
\<close>

theorem close_without_sentinel:
  assumes "\<forall>v \<in> set vs. \<forall>l \<in> set (split_nn v).
             \<not> (startsWith l (ustr ''data:'') \<and> trim (substring l 5) = ustr ''[DONE]'')"
    and "ok r" and "body r = Some (map Chunk vs)"
  shows "handleStartLearning ns (Response r)
           = (final_parse (foldl (\<lambda>a v. buffer_of (for_lines ns a (split_nn v))) [] vs),
              Suc (length vs))
         \<and> fst (handleStartLearning ns (Response r)) \<noteq> TransportFailure f"
  using assms(2,3) readLoop_no_done [OF assms(1), of ns "[]"]
  by (simp add: handleStartLearning_def final_parse_not_transport)

theorem close_without_sentinel_witness:
  \<open>list_all (\<lambda>v. list_all
        (\<lambda>l. \<not> (startsWith l (ustr ''data:'') \<and> trim (substring l 5) = ustr ''[DONE]''))
        (split_nn v))
      [ustr ''data: {"content":"[1,"}\<newline>\<newline>'', ustr ''data: {"content":"2]"}\<newline>\<newline>'']
   \<and> handleStartLearning id
        (Response \<lparr>ok = True, status = 200,
           body = Some (map Chunk [ustr ''data: {"content":"[1,"}\<newline>\<newline>'',
                                   ustr ''data: {"content":"2]"}\<newline>\<newline>''])\<rparr>)
       = (Success (JArr [JNum (ustr ''1''), JNum (ustr ''2'')]), 3)\<close>
proof -
  have h0: \<open>list_all (\<lambda>v. list_all
        (\<lambda>l. \<not> (startsWith l (ustr ''data:'') \<and> trim (substring l 5) = ustr ''[DONE]''))
        (split_nn v))
      [ustr ''data: {"content":"[1,"}\<newline>\<newline>'', ustr ''data: {"content":"2]"}\<newline>\<newline>'']\<close>
    by code_simp
  then have h1: \<open>\<forall>v \<in> set [ustr ''data: {"content":"[1,"}\<newline>\<newline>'', ustr ''data: {"content":"2]"}\<newline>\<newline>''].
      \<forall>l \<in> set (split_nn v).
        \<not> (startsWith l (ustr ''data:'') \<and> trim (substring l 5) = ustr ''[DONE]'')\<close>
    by (simp only: list_all_iff)
  have h2: \<open>final_parse (foldl (\<lambda>a v. buffer_of (for_lines id a (split_nn v))) []
              [ustr ''data: {"content":"[1,"}\<newline>\<newline>'', ustr ''data: {"content":"2]"}\<newline>\<newline>''])
            = Success (JArr [JNum (ustr ''1''), JNum (ustr ''2'')])\<close>
    by code_simp
  from close_without_sentinel [OF h1, of
      \<open>\<lparr>ok = True, status = 200,
           body = Some (map Chunk [ustr ''data: {"content":"[1,"}\<newline>\<newline>'',
                                   ustr ''data: {"content":"2]"}\<newline>\<newline>''])\<rparr>\<close> id]
    h0 h2
  show ?thesis by simp
qed

text \<open>
  C6. When the read loop is left, by the sentinel or by the close of the
  stream, with an empty accumulated text, the outcome is \<open>ParseFailure\<close>.
\<close>

theorem empty_buffer_parse_failure:
  assumes "ok r" and "body r = Some rs" and "readLoop ns [] rs = (k, Inr [])"
  shows "handleStartLearning ns (Response r) = (ParseFailure, k)"
  using assms by (simp add: handleStartLearning_def final_parse_def)

theorem empty_buffer_parse_failure_witness:
  \<open>ok \<lparr>ok = True, status = 200, body = Some [Chunk (ustr ''data: [DONE]\<newline>\<newline>'')]\<rparr>
   \<and> body \<lparr>ok = True, status = 200, body = Some [Chunk (ustr ''data: [DONE]\<newline>\<newline>'')]\<rparr>
       = Some [Chunk (ustr ''data: [DONE]\<newline>\<newline>'')]
   \<and> readLoop id [] [Chunk (ustr ''data: [DONE]\<newline>\<newline>'')] = (1, Inr [])
   \<and> handleStartLearning id
        (Response \<lparr>ok = True, status = 200,
                    body = Some [Chunk (ustr ''data: [DONE]\<newline>\<newline>'')]\<rparr>)
       = (ParseFailure, 1)\<close>
proof -
  have h: \<open>readLoop id [] [Chunk (ustr ''data: [DONE]\<newline>\<newline>'')] = (1, Inr [])\<close>
    by code_simp
  from empty_buffer_parse_failure
    [of \<open>\<lparr>ok = True, status = 200, body = Some [Chunk (ustr ''data: [DONE]\<newline>\<newline>'')]\<rparr>\<close>
        \<open>[Chunk (ustr ''data: [DONE]\<newline>\<newline>'')]\<close> id 1, OF _ _ h] h
  show ?thesis by simp
qed

text \<open>
  C7. A response whose status is not a success gives \<open>TransportFailure\<close> with
  that status at once: no read is made, whatever the body holds, and the
  final parse is not reached.
\<close>

theorem non_success_status_no_read:
  assumes "\<not> ok r"
  shows "handleStartLearning ns (Response r) = (TransportFailure (BadStatus (status r)), 0)"
  using assms by (simp add: handleStartLearning_def split: option.splits)

theorem non_success_status_no_read_witness:
  \<open>\<not> ok \<lparr>ok = False, status = 500,
           body = Some [Chunk (ustr ''data: {"content":"{}"}\<newline>\<newline>'')]\<rparr>
   \<and> handleStartLearning id
        (Response \<lparr>ok = False, status = 500,
                    body = Some [Chunk (ustr ''data: {"content":"{}"}\<newline>\<newline>'')]\<rparr>)
       = (TransportFailure (BadStatus 500), 0)\<close>
  using non_success_status_no_read
    [of \<open>\<lparr>ok = False, status = 500,
            body = Some [Chunk (ustr ''data: {"content":"{}"}\<newline>\<newline>'')]\<rparr>\<close> id]
  by simp



text \<open>
  C9. A frame whose trimmed text is \<^verbatim>\<open>[DONE]\<close> but which does not begin with
  the prefix \<^verbatim>\<open>data:\<close> does not terminate the stream: the line is skipped,
  the accumulated text is unchanged and the loop goes on with the next line.
\<close>

theorem unprefixed_done_ignored:
  assumes "trim line = ustr ''[DONE]''" and "\<not> startsWith line (ustr ''data:'')"
  shows "line_step ns acc line = Continue acc
         \<and> for_lines ns acc (line # lines) = for_lines ns acc lines"
  using assms(2) by (simp add: line_step_unprefixed)

theorem unprefixed_done_ignored_witness:
  \<open>trim (ustr '' [DONE]'') = ustr ''[DONE]''
   \<and> \<not> startsWith (ustr '' [DONE]'') (ustr ''data:'')
   \<and> line_step id (ustr ''{'') (ustr '' [DONE]'') = Continue (ustr ''{'')
   \<and> for_lines id (ustr ''{'') [ustr '' [DONE]'', ustr ''data: {"content":"}"}'']
       = Continue (ustr ''{}'')\<close>
proof -
  have h1: "trim (ustr '' [DONE]'') = ustr ''[DONE]''" by code_simp
  have h2: "\<not> startsWith (ustr '' [DONE]'') (ustr ''data:'')" by code_simp
  have h3: \<open>for_lines id (ustr ''{'') [ustr ''data: {"content":"}"}''] = Continue (ustr ''{}'')\<close>
    by code_simp
  from unprefixed_done_ignored [OF h1 h2, of id "ustr ''{''" \<open>[ustr ''data: {"content":"}"}'']\<close>] h1 h2 h3
  show ?thesis by simp
qed

text \<open>
  C10. A frame that is the prefix \<^verbatim>\<open>data:\<close> followed only by white space has
  an empty payload after trimming, which is neither the sentinel nor valid
  JSON: the frame is skipped, the loop goes on and the accumulated text is
  unchanged.
\<close>

theorem blank_payload_ignored:
  assumes "startsWith line (ustr ''data:'')"
    and "\<forall>c \<in> set (substring line 5). isWhiteSpace c"
  shows "line_step ns acc line = Continue acc"
  using assms by (simp add: line_step_def trim_blank JSON_parse_empty done_not_empty [symmetric])

theorem blank_payload_ignored_witness:
  "startsWith (ustr ''data: \<newline>'') (ustr ''data:'')
   \<and> list_all isWhiteSpace (substring (ustr ''data: \<newline>'') 5)
   \<and> line_step id (ustr ''[1'') (ustr ''data: \<newline>'') = Continue (ustr ''[1'')"
proof -
  have h1: "startsWith (ustr ''data: \<newline>'') (ustr ''data:'')" by code_simp
  have h0: "list_all isWhiteSpace (substring (ustr ''data: \<newline>'') 5)" by code_simp
  then have h2: "\<forall>c \<in> set (substring (ustr ''data: \<newline>'') 5). isWhiteSpace c"
    by (simp only: list_all_iff)
  from blank_payload_ignored [OF h1 h2, of id "ustr ''[1''"] h1 h0 show ?thesis by simp
qed

end
